theory Spec2Isabelle
  imports Main "HOL-Library.Word"
begin

section \<open>The managed runtime, as far as array.c reaches it\<close>

text \<open>
  array.c is the C side of TruffleRuby's array API. Every function takes handles
  (\<open>VALUE\<close>), unwraps them with \<open>rb_tr_unwrap\<close>, sends a named message to the managed
  object with \<open>polyglot_invoke\<close> (directly or through the \<open>RUBY_INVOKE\<close> macros) and wraps
  the answer with \<open>rb_tr_wrap\<close>. The managed objects live in a heap of their own; the C
  side only ever holds handles.

  A managed value is an immediate (nil, true, false, an integer), a reference to a heap
  object, or the \<open>RUBY_CEXT\<close> module object the C side sends its helper messages to. A heap
  object is an array of managed values or some other object.
\<close>

datatype mvalue = MNil | MTrue | MFalse | MInt int | MObj nat | MCext

abbreviation RUBY_CEXT :: mvalue where
  "RUBY_CEXT \<equiv> MCext"

datatype mobject = MArray "mvalue list" | MOther

text \<open>
  The failures of section 7 of the specification, and \<open>UndefinedBehaviour\<close> for what C
  leaves undefined on the native side (signed overflow of an \<open>int\<close> counter, reading an
  argument or a buffer slot that the caller did not supply).
\<close>

datatype error =
  InvalidHandle | TypeMismatch | IndexOutOfRange | ManagedException | UndefinedBehaviour

text \<open>
  \<open>VALUE\<close>: a tagged immediate (\<open>Qnil\<close>, \<open>Qtrue\<close>, \<open>Qfalse\<close>, a small integer) or a
  reference handle, a token of the handle table.
\<close>

datatype VALUE = Qnil | Qtrue | Qfalse | Fixnum int | Ref nat

text \<open>
  The state both sides share: the managed heap (an object's identity is its position),
  the handle table (a reference handle's token is its position), and the number of
  messages \<open>polyglot_invoke\<close> has sent to the managed side so far.
\<close>

record runtime =
  heap :: "mobject list"
  handles :: "mvalue list"
  dispatches :: nat

subsection \<open>Handle table\<close>

text \<open>
  Modelled from the spec: \<open>rb_tr_wrap\<close>, \<open>rb_tr_unwrap\<close> and the tagging macros come from
  truffleruby-impl.h and ruby.h, which are not part of array.c. Section 4.1: nil, true,
  false and integers within the tagged-immediate range are wrapped as tagged immediates
  with no allocation; every other value gets a reference handle, and wrapping the same
  value twice may give two handles. \<open>rb_tr_unwrap\<close> is the inverse and fails with
  \<open>InvalidHandle\<close> on a handle that is malformed or not in the table. The
  platform-defined magnitude of section 6 is taken as 62 bits and a sign, the range of
  ruby.h's \<open>FIXABLE\<close>.
\<close>

definition FIXABLE :: "int \<Rightarrow> bool" where
  "FIXABLE i \<longleftrightarrow> - (2 ^ 62) \<le> i \<and> i < 2 ^ 62"

definition new_handle :: "runtime \<Rightarrow> mvalue \<Rightarrow> runtime \<times> VALUE" where
  "new_handle s v = (s\<lparr>handles := handles s @ [v]\<rparr>, Ref (length (handles s)))"

fun rb_tr_wrap :: "runtime \<Rightarrow> mvalue \<Rightarrow> runtime \<times> VALUE" where
  "rb_tr_wrap s MNil = (s, Qnil)"
| "rb_tr_wrap s MTrue = (s, Qtrue)"
| "rb_tr_wrap s MFalse = (s, Qfalse)"
| "rb_tr_wrap s (MInt i) = (if FIXABLE i then (s, Fixnum i) else new_handle s (MInt i))"
| "rb_tr_wrap s (MObj k) = new_handle s (MObj k)"
| "rb_tr_wrap s MCext = new_handle s MCext"

fun rb_tr_unwrap :: "runtime \<Rightarrow> VALUE \<Rightarrow> error + mvalue" where
  "rb_tr_unwrap s Qnil = Inr MNil"
| "rb_tr_unwrap s Qtrue = Inr MTrue"
| "rb_tr_unwrap s Qfalse = Inr MFalse"
| "rb_tr_unwrap s (Fixnum i) = (if FIXABLE i then Inr (MInt i) else Inl InvalidHandle)"
| "rb_tr_unwrap s (Ref k) =
     (if k < length (handles s) then Inr (handles s ! k) else Inl InvalidHandle)"

fun immediate :: "VALUE \<Rightarrow> bool" where
  "immediate (Ref k) = False"
| "immediate v = True"

text \<open>
  Modelled from the spec: \<open>LONG2FIX\<close> of ruby.h tags a C \<open>long\<close> as a small integer by
  shifting it left by one bit, so the value the handle carries is the \<open>long\<close> cut to 63
  bits.
\<close>

definition LONG2FIX :: "64 word \<Rightarrow> VALUE" where
  "LONG2FIX i = Fixnum (signed_take_bit 62 (sint i))"

definition NIL_P :: "VALUE \<Rightarrow> bool" where
  "NIL_P v \<longleftrightarrow> v = Qnil"

text \<open>\<open>h\<close> is a valid handle of the array object \<open>k\<close>, whose elements are \<open>xs\<close>.\<close>

definition refers_to_array :: "runtime \<Rightarrow> VALUE \<Rightarrow> nat \<Rightarrow> mvalue list \<Rightarrow> bool" where
  "refers_to_array s h k xs \<longleftrightarrow>
     rb_tr_unwrap s h = Inr (MObj k) \<and> k < length (heap s) \<and> heap s ! k = MArray xs"

subsection \<open>The managed array's methods\<close>

text \<open>
  Modelled from the spec: the methods of the managed array are Ruby and Java code of the
  runtime, outside array.c. Each branch below follows the row of the table in section 4.4
  for the C function that sends the message, with Ruby's index convention (a negative
  index counts from the end) where the row says the policy is the managed array's. The
  managed side compares values with HOL equality and orders integers by value; any other
  comparison in a sort raises. Frozen arrays are outside this development:
  \<open>rb_ary_freeze\<close> hands over to \<open>rb_obj_freeze\<close>, which array.c does not define, and no
  array of the heap below is frozen.
\<close>

definition set_array :: "runtime \<Rightarrow> nat \<Rightarrow> mvalue list \<Rightarrow> runtime" where
  "set_array s k ys = s\<lparr>heap := (heap s)[k := MArray ys]\<rparr>"

definition new_array :: "runtime \<Rightarrow> mvalue list \<Rightarrow> runtime \<times> mvalue" where
  "new_array s ys = (s\<lparr>heap := heap s @ [MArray ys]\<rparr>, MObj (length (heap s)))"

definition ary_index :: "mvalue list \<Rightarrow> int \<Rightarrow> nat option" where
  "ary_index xs i =
     (let n = int (length xs); j = (if i < 0 then i + n else i)
      in if 0 \<le> j \<and> j < n then Some (nat j) else None)"

fun the_MInt :: "mvalue \<Rightarrow> int option" where
  "the_MInt (MInt i) = Some i"
| "the_MInt v = None"

definition managed_sort :: "mvalue list \<Rightarrow> error + mvalue list" where
  "managed_sort xs =
     (if length xs \<le> 1 then Inr xs
      else if list_all (\<lambda>x. the_MInt x \<noteq> None) xs
           then Inr (map MInt (sort (map (\<lambda>x. the (the_MInt x)) xs)))
           else Inl ManagedException)"

definition array_invoke ::
  "runtime \<Rightarrow> nat \<Rightarrow> mvalue list \<Rightarrow> string \<Rightarrow> mvalue list \<Rightarrow> error + (runtime \<times> mvalue)" where
  "array_invoke s k xs name args =
    (if name = ''push'' then
       (case args of [v] \<Rightarrow> Inr (set_array s k (xs @ [v]), MObj k)
        | _ \<Rightarrow> Inl ManagedException)
     else if name = ''pop'' then
       (case args of
          [] \<Rightarrow> if xs = [] then Inr (s, MNil)
                else Inr (set_array s k (butlast xs), last xs)
        | _ \<Rightarrow> Inl ManagedException)
     else if name = ''shift'' then
       (case args of
          [] \<Rightarrow> if xs = [] then Inr (s, MNil)
                else Inr (set_array s k (tl xs), hd xs)
        | _ \<Rightarrow> Inl ManagedException)
     else if name = ''unshift'' then
       (case args of [v] \<Rightarrow> Inr (set_array s k (v # xs), MObj k)
        | _ \<Rightarrow> Inl ManagedException)
     else if name = ''[]='' then
       (case args of
          [MInt i, v] \<Rightarrow>
            (let j = (if i < 0 then i + int (length xs) else i) in
             if j < 0 then Inl IndexOutOfRange
             else if j < int (length xs) then Inr (set_array s k (xs[nat j := v]), v)
             else Inr (set_array s k (xs @ replicate (nat j - length xs) MNil @ [v]), v))
        | [_, _] \<Rightarrow> Inl TypeMismatch
        | _ \<Rightarrow> Inl ManagedException)
     else if name = ''[]'' then
       (case args of
          [MInt i] \<Rightarrow>
            (case ary_index xs i of
               None \<Rightarrow> Inr (s, MNil)
             | Some j \<Rightarrow> Inr (s, xs ! j))
        | [_] \<Rightarrow> Inl TypeMismatch
        | _ \<Rightarrow> Inl ManagedException)
     else if name = ''clear'' then
       (case args of [] \<Rightarrow> Inr (set_array s k [], MObj k)
        | _ \<Rightarrow> Inl ManagedException)
     else if name = ''delete'' then
       (case args of
          [v] \<Rightarrow> if v \<in> set xs then Inr (set_array s k (remove1 v xs), v)
                 else Inr (s, MNil)
        | _ \<Rightarrow> Inl ManagedException)
     else if name = ''delete_at'' then
       (case args of
          [MInt i] \<Rightarrow>
            (case ary_index xs i of
               None \<Rightarrow> Inr (s, MNil)
             | Some j \<Rightarrow> Inr (set_array s k (take j xs @ drop (Suc j) xs), xs ! j))
        | [_] \<Rightarrow> Inl TypeMismatch
        | _ \<Rightarrow> Inl ManagedException)
     else if name = ''reverse!'' then
       (case args of [] \<Rightarrow> Inr (set_array s k (rev xs), MObj k)
        | _ \<Rightarrow> Inl ManagedException)
     else if name = ''concat'' then
       (case args of
          [MObj j] \<Rightarrow>
            (if j < length (heap s) then
               (case heap s ! j of
                  MArray ys \<Rightarrow> Inr (set_array s k (xs @ ys), MObj k)
                | MOther \<Rightarrow> Inl TypeMismatch)
             else Inl InvalidHandle)
        | [_] \<Rightarrow> Inl TypeMismatch
        | _ \<Rightarrow> Inl ManagedException)
     else if name = ''rotate!'' then
       (case args of
          [MInt n] \<Rightarrow>
            Inr (set_array s k (rotate (nat (n mod int (length xs))) xs), MObj k)
        | [_] \<Rightarrow> Inl TypeMismatch
        | _ \<Rightarrow> Inl ManagedException)
     else if name = ''sort!'' then
       (case args of
          [] \<Rightarrow>
            (case managed_sort xs of
               Inl e \<Rightarrow> Inl e
             | Inr ys \<Rightarrow> Inr (set_array s k ys, MObj k))
        | _ \<Rightarrow> Inl ManagedException)
     else Inl ManagedException)"

text \<open>
  Modelled from the spec: the helper \<open>rb_ary_new_capa\<close> of the \<open>RUBY_CEXT\<close> module returns
  a new empty array; the capacity is a hint with no observable effect (section 4.4).
\<close>

definition cext_invoke ::
  "runtime \<Rightarrow> string \<Rightarrow> mvalue list \<Rightarrow> error + (runtime \<times> mvalue)" where
  "cext_invoke s name args =
    (if name = ''rb_ary_new_capa'' then
       (case args of [MInt n] \<Rightarrow> Inr (new_array s [])
        | _ \<Rightarrow> Inl ManagedException)
     else Inl ManagedException)"

text \<open>
  \<open>polyglot_invoke\<close> sends the message to the managed receiver: one dispatch, resolved by
  the receiver's dynamic type (section 4.2). An exception of the managed side is the
  \<open>Inl\<close> result.
\<close>

definition polyglot_invoke ::
  "runtime \<Rightarrow> mvalue \<Rightarrow> string \<Rightarrow> mvalue list \<Rightarrow> error + (runtime \<times> mvalue)" where
  "polyglot_invoke s recv name args =
    (let s1 = s\<lparr>dispatches := Suc (dispatches s)\<rparr> in
     case recv of
       MObj k \<Rightarrow>
         (if k < length (heap s1) then
            (case heap s1 ! k of
               MArray xs \<Rightarrow> array_invoke s1 k xs name args
             | MOther \<Rightarrow> Inl TypeMismatch)
          else Inl InvalidHandle)
     | MCext \<Rightarrow> cext_invoke s1 name args
     | _ \<Rightarrow> Inl TypeMismatch)"

text \<open>
  Modelled from the spec: Sulong's \<open>polyglot_get_array_element\<close> reads the element at an
  \<open>int\<close> position of a managed array; a position outside the array is an error of the
  managed side.
\<close>

definition polyglot_get_array_element :: "runtime \<Rightarrow> mvalue \<Rightarrow> int \<Rightarrow> error + mvalue" where
  "polyglot_get_array_element s obj i =
    (case obj of
       MObj k \<Rightarrow>
         (if k < length (heap s) then
            (case heap s ! k of
               MArray xs \<Rightarrow>
                 if 0 \<le> i \<and> i < int (length xs) then Inr (xs ! nat i)
                 else Inl IndexOutOfRange
             | MOther \<Rightarrow> Inl TypeMismatch)
          else Inl InvalidHandle)
     | _ \<Rightarrow> Inl TypeMismatch)"

section \<open>The macros of truffleruby-impl.h\<close>

text \<open>
  Modelled from the spec: section 4.2. \<open>RUBY_INVOKE_NO_WRAP\<close> unwraps the receiver and
  each argument and sends the message; \<open>RUBY_INVOKE\<close> also wraps the answer.
\<close>

fun unwrap_args :: "runtime \<Rightarrow> VALUE list \<Rightarrow> error + mvalue list" where
  "unwrap_args s [] = Inr []"
| "unwrap_args s (v # vs) =
     (case rb_tr_unwrap s v of
        Inl e \<Rightarrow> Inl e
      | Inr x \<Rightarrow>
          (case unwrap_args s vs of
             Inl e \<Rightarrow> Inl e
           | Inr xs \<Rightarrow> Inr (x # xs)))"

definition RUBY_INVOKE_NO_WRAP ::
  "runtime \<Rightarrow> VALUE \<Rightarrow> string \<Rightarrow> VALUE list \<Rightarrow> error + (runtime \<times> mvalue)" where
  "RUBY_INVOKE_NO_WRAP s recv name args =
    (case rb_tr_unwrap s recv of
       Inl e \<Rightarrow> Inl e
     | Inr r \<Rightarrow>
         (case unwrap_args s args of
            Inl e \<Rightarrow> Inl e
          | Inr as \<Rightarrow> polyglot_invoke s r name as))"

definition RUBY_INVOKE ::
  "runtime \<Rightarrow> VALUE \<Rightarrow> string \<Rightarrow> VALUE list \<Rightarrow> error + (runtime \<times> VALUE)" where
  "RUBY_INVOKE s recv name args =
    (case RUBY_INVOKE_NO_WRAP s recv name args of
       Inl e \<Rightarrow> Inl e
     | Inr (s', r) \<Rightarrow> Inr (rb_tr_wrap s' r))"

section \<open>array.c\<close>

text \<open>
  A C \<open>long\<close> is a \<open>64 word\<close> read with \<open>sint\<close>; a raw \<open>long\<close> argument of
  \<open>polyglot_invoke\<close> reaches the managed side as that integer.

  \<^verbatim>\<open>
  VALUE rb_ary_rotate(VALUE array, long n) {
    if (n != 0) {
      return rb_tr_wrap(polyglot_invoke(rb_tr_unwrap(array), "rotate!", n));
    }
    return Qnil;
  }
  \<close>
\<close>

definition rb_ary_rotate :: "runtime \<Rightarrow> VALUE \<Rightarrow> 64 word \<Rightarrow> error + (runtime \<times> VALUE)" where
  "rb_ary_rotate s array n =
    (if n \<noteq> 0 then
       (case rb_tr_unwrap s array of
          Inl e \<Rightarrow> Inl e
        | Inr a \<Rightarrow>
            (case polyglot_invoke s a ''rotate!'' [MInt (sint n)] of
               Inl e \<Rightarrow> Inl e
             | Inr (s', r) \<Rightarrow> Inr (rb_tr_wrap s' r)))
     else Inr (s, Qnil))"

text \<open>
  \<^verbatim>\<open>
  VALUE RARRAY_AREF(VALUE array, long index) {
    return rb_tr_wrap(polyglot_get_array_element(rb_tr_unwrap(array), (int) index));
  }
  \<close>
  The cast \<open>(int) index\<close> keeps the low 32 bits of the \<open>long\<close>.
\<close>

definition RARRAY_AREF :: "runtime \<Rightarrow> VALUE \<Rightarrow> 64 word \<Rightarrow> error + (runtime \<times> VALUE)" where
  "RARRAY_AREF s array index =
    (case rb_tr_unwrap s array of
       Inl e \<Rightarrow> Inl e
     | Inr a \<Rightarrow>
         (case polyglot_get_array_element s a (sint (ucast index :: 32 word)) of
            Inl e \<Rightarrow> Inl e
          | Inr v \<Rightarrow> Inr (rb_tr_wrap s v)))"

text \<open>
  \<^verbatim>\<open>
  VALUE rb_ary_new_capa(long capacity) {
    return rb_tr_wrap(polyglot_invoke(RUBY_CEXT, "rb_ary_new_capa", capacity));
  }
  void rb_ary_store(VALUE array, long index, VALUE value) {
    RUBY_INVOKE_NO_WRAP(array, "[]=", LONG2FIX(index), value);
  }
  \<close>
\<close>

definition rb_ary_new_capa :: "runtime \<Rightarrow> 64 word \<Rightarrow> error + (runtime \<times> VALUE)" where
  "rb_ary_new_capa s capacity =
    (case polyglot_invoke s RUBY_CEXT ''rb_ary_new_capa'' [MInt (sint capacity)] of
       Inl e \<Rightarrow> Inl e
     | Inr (s', r) \<Rightarrow> Inr (rb_tr_wrap s' r))"

definition rb_ary_store :: "runtime \<Rightarrow> VALUE \<Rightarrow> 64 word \<Rightarrow> VALUE \<Rightarrow> error + runtime" where
  "rb_ary_store s array index v =
    (case RUBY_INVOKE_NO_WRAP s array ''[]='' [LONG2FIX index, v] of
       Inl e \<Rightarrow> Inl e
     | Inr (s', r) \<Rightarrow> Inr s')"

text \<open>
  \<^verbatim>\<open>
  VALUE rb_ary_new_from_args(long n, ...) {
    VALUE array = rb_ary_new_capa(n);
    va_list args;
    va_start(args, n);
    for (int i = 0; i < n; i++) {
      rb_ary_store(array, i, va_arg(args, VALUE));
    }
    va_end(args);
    return array;
  }
  \<close>
  The variable arguments are the list \<open>args\<close>; \<open>va_arg\<close> takes its head, and taking one
  more than the caller passed is undefined. The counter is a C \<open>int\<close>: it is compared
  with the \<open>long n\<close> as a \<open>long\<close>, it is widened to \<open>long\<close> for \<open>rb_ary_store\<close>, and
  \<open>i++\<close> at \<open>INT_MAX\<close> is a signed overflow, which C leaves undefined.
\<close>

definition INT_MAX :: int where
  "INT_MAX = 2147483647"

fun rb_ary_new_from_args_loop ::
  "runtime \<Rightarrow> VALUE \<Rightarrow> int \<Rightarrow> 64 word \<Rightarrow> VALUE list \<Rightarrow> error + runtime" where
  "rb_ary_new_from_args_loop s array i n [] =
     (if i < sint n then Inl UndefinedBehaviour else Inr s)"
| "rb_ary_new_from_args_loop s array i n (v # args) =
     (if i < sint n then
        (case rb_ary_store s array (of_int i) v of
           Inl e \<Rightarrow> Inl e
         | Inr s' \<Rightarrow>
             if i = INT_MAX then Inl UndefinedBehaviour
             else rb_ary_new_from_args_loop s' array (i + 1) n args)
      else Inr s)"

definition rb_ary_new_from_args ::
  "runtime \<Rightarrow> 64 word \<Rightarrow> VALUE list \<Rightarrow> error + (runtime \<times> VALUE)" where
  "rb_ary_new_from_args s n args =
    (case rb_ary_new_capa s n of
       Inl e \<Rightarrow> Inl e
     | Inr (s1, array) \<Rightarrow>
         (case rb_ary_new_from_args_loop s1 array 0 n args of
            Inl e \<Rightarrow> Inl e
          | Inr s2 \<Rightarrow> Inr (s2, array)))"

text \<open>
  \<^verbatim>\<open>
  VALUE rb_ary_new_from_values(long n, const VALUE *values) {
    VALUE array = rb_ary_new_capa(n);
    for (int i = 0; i < n; i++) {
      rb_ary_store(array, i, values[i]);
    }
    return array;
  }
  \<close>
  The buffer is the list \<open>values\<close>; reading a slot past its end is undefined.
\<close>

function rb_ary_new_from_values_loop ::
  "runtime \<Rightarrow> VALUE \<Rightarrow> int \<Rightarrow> 64 word \<Rightarrow> VALUE list \<Rightarrow> error + runtime" where
  "rb_ary_new_from_values_loop s array i n values =
     (if i < sint n then
        (if 0 \<le> i \<and> nat i < length values then
           (case rb_ary_store s array (of_int i) (values ! nat i) of
              Inl e \<Rightarrow> Inl e
            | Inr s' \<Rightarrow>
                if i = INT_MAX then Inl UndefinedBehaviour
                else rb_ary_new_from_values_loop s' array (i + 1) n values)
         else Inl UndefinedBehaviour)
      else Inr s)"
  by pat_completeness auto
termination
  by (relation "measure (\<lambda>(s, array, i, n, values). nat (sint n - i))") auto

definition rb_ary_new_from_values ::
  "runtime \<Rightarrow> 64 word \<Rightarrow> VALUE list \<Rightarrow> error + (runtime \<times> VALUE)" where
  "rb_ary_new_from_values s n values =
    (case rb_ary_new_capa s n of
       Inl e \<Rightarrow> Inl e
     | Inr (s1, array) \<Rightarrow>
         (case rb_ary_new_from_values_loop s1 array 0 n values of
            Inl e \<Rightarrow> Inl e
          | Inr s2 \<Rightarrow> Inr (s2, array)))"


definition rb_ary_pop :: "runtime \<Rightarrow> VALUE \<Rightarrow> error + (runtime \<times> VALUE)" where
  "rb_ary_pop s array = RUBY_INVOKE s array ''pop'' []"




definition rb_ary_delete :: "runtime \<Rightarrow> VALUE \<Rightarrow> VALUE \<Rightarrow> error + (runtime \<times> VALUE)" where
  "rb_ary_delete s array v = RUBY_INVOKE s array ''delete'' [v]"


definition rb_ary_shift :: "runtime \<Rightarrow> VALUE \<Rightarrow> error + (runtime \<times> VALUE)" where
  "rb_ary_shift s array = RUBY_INVOKE s array ''shift'' []"

definition rb_ary_concat :: "runtime \<Rightarrow> VALUE \<Rightarrow> VALUE \<Rightarrow> error + (runtime \<times> VALUE)" where
  "rb_ary_concat s a b = RUBY_INVOKE s a ''concat'' [b]"

text \<open>
  \<^verbatim>\<open>
  VALUE rb_ary_entry(VALUE array, long index) {
    return rb_tr_wrap(polyglot_invoke(rb_tr_unwrap(array), "[]", index));
  }
  VALUE rb_ary_delete_at(VALUE array, long n) {
    return rb_tr_wrap(polyglot_invoke(rb_tr_unwrap(array), "delete_at", n));
  }
  \<close>
\<close>

definition rb_ary_entry :: "runtime \<Rightarrow> VALUE \<Rightarrow> 64 word \<Rightarrow> error + (runtime \<times> VALUE)" where
  "rb_ary_entry s array index =
    (case rb_tr_unwrap s array of
       Inl e \<Rightarrow> Inl e
     | Inr a \<Rightarrow>
         (case polyglot_invoke s a ''[]'' [MInt (sint index)] of
            Inl e \<Rightarrow> Inl e
          | Inr (s', r) \<Rightarrow> Inr (rb_tr_wrap s' r)))"

definition rb_ary_delete_at :: "runtime \<Rightarrow> VALUE \<Rightarrow> 64 word \<Rightarrow> error + (runtime \<times> VALUE)" where
  "rb_ary_delete_at s array n =
    (case rb_tr_unwrap s array of
       Inl e \<Rightarrow> Inl e
     | Inr a \<Rightarrow>
         (case polyglot_invoke s a ''delete_at'' [MInt (sint n)] of
            Inl e \<Rightarrow> Inl e
          | Inr (s', r) \<Rightarrow> Inr (rb_tr_wrap s' r)))"


text \<open>
  Modelled from the spec: \<open>rb_check_array_type\<close> is defined in another file of the C
  extension layer. Section 4.4, row \<open>to_ary\<close>: a value that is already array-convertible
  is returned with its identity; for any other value the answer is nil. The values that
  are array-convertible here are the arrays.
\<close>

definition rb_check_array_type :: "runtime \<Rightarrow> VALUE \<Rightarrow> error + (runtime \<times> VALUE)" where
  "rb_check_array_type s x =
    (case rb_tr_unwrap s x of
       Inl e \<Rightarrow> Inl e
     | Inr v \<Rightarrow>
         (case v of
            MObj k \<Rightarrow>
              (if k < length (heap s) then
                 (case heap s ! k of
                    MArray xs \<Rightarrow> Inr (rb_tr_wrap s (MObj k))
                  | MOther \<Rightarrow> Inr (s, Qnil))
               else Inl InvalidHandle)
          | _ \<Rightarrow> Inr (s, Qnil)))"

text \<open>
  \<^verbatim>\<open>
  VALUE rb_ary_to_ary(VALUE array) {
    VALUE tmp = rb_check_array_type(array);

    if (!NIL_P(tmp)) return tmp;
    return rb_ary_new_from_args(1, array);
  }
  \<close>
\<close>

definition rb_ary_to_ary :: "runtime \<Rightarrow> VALUE \<Rightarrow> error + (runtime \<times> VALUE)" where
  "rb_ary_to_ary s array =
    (case rb_check_array_type s array of
       Inl e \<Rightarrow> Inl e
     | Inr (s', tmp) \<Rightarrow>
         if \<not> NIL_P tmp then Inr (s', tmp)
         else rb_ary_new_from_args s' 1 [array])"

section \<open>Observations\<close>

text \<open>
  \<open>in_place s s' k ys\<close>: from \<open>s\<close> to \<open>s'\<close> the heap changed at the object \<open>k\<close> alone,
  which now holds the elements \<open>ys\<close>; no object was allocated, and every handle of \<open>s\<close> is
  still in the table.
\<close>

definition in_place :: "runtime \<Rightarrow> runtime \<Rightarrow> nat \<Rightarrow> mvalue list \<Rightarrow> bool" where
  "in_place s s' k ys \<longleftrightarrow>
     heap s' = (heap s)[k := MArray ys] \<and> take (length (handles s)) (handles s') = handles s"

text \<open>
  \<open>array_convertible s v\<close>: the managed value is an array of the heap.
  \<open>scalar s v\<close>: it is a value of the heap that is not an array.
\<close>

fun array_convertible :: "runtime \<Rightarrow> mvalue \<Rightarrow> bool" where
  "array_convertible s (MObj k) =
     (k < length (heap s) \<and> (case heap s ! k of MArray xs \<Rightarrow> True | MOther \<Rightarrow> False))"
| "array_convertible s v = False"

fun scalar :: "runtime \<Rightarrow> mvalue \<Rightarrow> bool" where
  "scalar s (MObj k) =
     (k < length (heap s) \<and> (case heap s ! k of MArray xs \<Rightarrow> False | MOther \<Rightarrow> True))"
| "scalar s v = True"

text \<open>The states of the examples.\<close>

definition s0 :: runtime where
  "s0 = \<lparr>heap = [MArray [MInt 1, MInt 2, MInt 3, MInt 4]], handles = [MObj 0],
          dispatches = 0\<rparr>"

definition s_empty :: runtime where
  "s_empty = \<lparr>heap = [], handles = [], dispatches = 0\<rparr>"

definition s2 :: runtime where
  "s2 = \<lparr>heap = [MArray [MInt 3, MInt 1, MInt 2], MArray [MInt 7, MInt 8], MArray [], MOther],
          handles = [MObj 0, MObj 1, MObj 2, MObj 3], dispatches = 0\<rparr>"

section \<open>The handle table keeps what it holds\<close>

lemma rb_tr_unwrap_extend:
  assumes "take (length (handles s)) (handles s') = handles s"
      and "rb_tr_unwrap s h = Inr v"
  shows "rb_tr_unwrap s' h = Inr v"
proof (cases h)
  case (Ref t)
  with assms(2) have t: "t < length (handles s)" and v: "handles s ! t = v"
    by (auto split: if_splits)
  have "length (take (length (handles s)) (handles s')) = length (handles s)"
    using assms(1) by simp
  then have len: "length (handles s) \<le> length (handles s')"
    by simp
  have "handles s' ! t = take (length (handles s)) (handles s') ! t"
    using t by simp
  with assms(1) v have "handles s' ! t = v" by simp
  with t len Ref show ?thesis by simp
qed (use assms(2) in auto)

lemma rb_tr_unwrap_same_handles:
  "handles s' = handles s \<Longrightarrow> rb_tr_unwrap s' h = rb_tr_unwrap s h"
  by (cases h) auto

lemma unwrap_args_same_handles:
  "handles s' = handles s \<Longrightarrow> unwrap_args s' vs = unwrap_args s vs"
  by (induction vs) (simp_all add: rb_tr_unwrap_same_handles [of s' s] split: sum.splits)

lemma rb_tr_wrap_result:
  assumes "rb_tr_wrap s v = (s', r)"
  shows "heap s' = heap s" and "dispatches s' = dispatches s"
    and "take (length (handles s)) (handles s') = handles s"
    and "rb_tr_unwrap s' r = Inr v"
proof -
  show "heap s' = heap s"
    using assms by (cases v) (auto simp: new_handle_def split: if_splits)
  show "dispatches s' = dispatches s"
    using assms by (cases v) (auto simp: new_handle_def split: if_splits)
  show "take (length (handles s)) (handles s') = handles s"
    using assms by (cases v) (auto simp: new_handle_def split: if_splits)
  show "rb_tr_unwrap s' r = Inr v"
    using assms by (cases v) (auto simp: new_handle_def split: if_splits)
qed

lemma unwrap_args_nth:
  "unwrap_args s vs = Inr ms \<Longrightarrow>
   length ms = length vs \<and> (\<forall>j. j < length vs \<longrightarrow> rb_tr_unwrap s (vs ! j) = Inr (ms ! j))"
proof (induction vs arbitrary: ms)
  case Nil
  then show ?case by simp
next
  case (Cons v vs)
  then obtain m ms' where m: "rb_tr_unwrap s v = Inr m" and ms': "unwrap_args s vs = Inr ms'"
    and eq: "ms = m # ms'"
    by (auto split: sum.splits)
  from Cons.IH [OF ms'] m eq show ?case
    by (auto simp: nth_Cons split: nat.splits)
qed

section \<open>Sending a message to an array\<close>

lemma polyglot_invoke_array:
  "k < length (heap s) \<Longrightarrow> heap s ! k = MArray xs \<Longrightarrow>
   polyglot_invoke s (MObj k) name args =
     array_invoke (s\<lparr>dispatches := Suc (dispatches s)\<rparr>) k xs name args"
  by (simp add: polyglot_invoke_def)

lemma set_array_same:
  "k < length (heap s) \<Longrightarrow> heap s ! k = MArray xs \<Longrightarrow> set_array s k xs = s"
  using list_update_id [of "heap s" k] by (simp add: set_array_def)

lemma refers_to_array_in_place:
  assumes "refers_to_array s a k xs" and "in_place s s' k ys"
  shows "refers_to_array s' a k ys"
  using assms rb_tr_unwrap_extend [of s s' a "MObj k"]
  by (simp add: refers_to_array_def in_place_def)

lemma wrapped_invoke:
  assumes a: "refers_to_array s a k xs"
      and inv: "array_invoke (s\<lparr>dispatches := Suc (dispatches s)\<rparr>) k xs name as =
                  Inr (set_array (s\<lparr>dispatches := Suc (dispatches s)\<rparr>) k ys, v)"
  shows "\<exists>s' r. (case polyglot_invoke s (MObj k) name as of
                   Inl e \<Rightarrow> Inl e
                 | Inr (s1, m) \<Rightarrow> Inr (rb_tr_wrap s1 m)) = Inr (s', r) \<and>
           in_place s s' k ys \<and> refers_to_array s' a k ys \<and>
           rb_tr_unwrap s' r = Inr v \<and> dispatches s' = Suc (dispatches s)"
proof -
  define s1 where "s1 = set_array (s\<lparr>dispatches := Suc (dispatches s)\<rparr>) k ys"
  obtain s' r where w: "rb_tr_wrap s1 v = (s', r)" by (cases "rb_tr_wrap s1 v")
  from a have k: "k < length (heap s)" and xs: "heap s ! k = MArray xs"
    by (simp_all add: refers_to_array_def)
  have res: "(case polyglot_invoke s (MObj k) name as of
                Inl e \<Rightarrow> Inl e
              | Inr (s1, m) \<Rightarrow> Inr (rb_tr_wrap s1 m)) = Inr (s', r)"
    using k xs inv w by (simp add: polyglot_invoke_array s1_def)
  have ip: "in_place s s' k ys"
    using rb_tr_wrap_result(1,3) [OF w] by (simp add: in_place_def s1_def set_array_def)
  have d: "dispatches s' = Suc (dispatches s)"
    using rb_tr_wrap_result(2) [OF w] by (simp add: s1_def set_array_def)
  from res ip refers_to_array_in_place [OF a ip] rb_tr_wrap_result(4) [OF w] d
  show ?thesis by blast
qed

lemma RUBY_INVOKE_array:
  assumes "refers_to_array s a k xs" and "unwrap_args s args = Inr as"
  shows "RUBY_INVOKE s a name args =
           (case polyglot_invoke s (MObj k) name as of
              Inl e \<Rightarrow> Inl e
            | Inr (s1, m) \<Rightarrow> Inr (rb_tr_wrap s1 m))"
  using assms by (simp add: RUBY_INVOKE_def RUBY_INVOKE_NO_WRAP_def refers_to_array_def)

lemma in_place_refers:
  assumes "refers_to_array s a k xs" and "in_place s s' k ys"
      and "rb_tr_unwrap s' r = Inr (MObj k)"
  shows "refers_to_array s' r k ys"
  using assms by (simp add: refers_to_array_def in_place_def)

lemma array_invoke_rotate:
  "array_invoke s k xs ''rotate!'' [MInt n] =
     Inr (set_array s k (rotate (nat (n mod int (length xs))) xs), MObj k)"
  by (simp add: array_invoke_def)

lemma nth_rotate_int:
  assumes "i < length xs"
  shows "rotate (nat (n mod int (length xs))) xs ! i =
         xs ! nat ((int i + n) mod int (length xs))"
proof -
  from assms have pos: "0 < int (length xs)" by linarith
  have "rotate (nat (n mod int (length xs))) xs ! i =
        xs ! ((nat (n mod int (length xs)) + i) mod length xs)"
    using assms by (auto simp: nth_rotate)
  also have "(nat (n mod int (length xs)) + i) mod length xs =
             nat ((int i + n) mod int (length xs))"
  proof -
    have "int ((nat (n mod int (length xs)) + i) mod length xs) =
          (n mod int (length xs) + int i) mod int (length xs)"
      using pos by (simp add: zmod_int)
    also have "\<dots> = (int i + n) mod int (length xs)"
      by (simp add: mod_simps add.commute)
    finally show ?thesis by linarith
  qed
  finally show ?thesis .
qed

section \<open>Rotation\<close>

text \<open>
  C1. \<open>rb_ary_rotate\<close> with \<open>n = 0\<close> returns \<open>Qnil\<close> and leaves the whole state as it was,
  whatever the handle. With \<open>n \<noteq> 0\<close> and a handle of an array it succeeds: the array
  object the handle refers to is rotated in place (the element now at position \<open>i\<close> is the
  one that was at \<open>(i + n) mod length\<close>, so \<open>[1, 2, 3, 4]\<close> rotated by 1 is
  \<open>[2, 3, 4, 1]\<close>), and the handle returned refers to that same object.
\<close>

theorem rb_ary_rotate_contract:
  "rb_ary_rotate s a 0 = Inr (s, Qnil) \<and>
   (n \<noteq> 0 \<and> refers_to_array s a k xs \<longrightarrow>
      (\<exists>s' r ys. rb_ary_rotate s a n = Inr (s', r) \<and>
         in_place s s' k ys \<and> refers_to_array s' a k ys \<and> refers_to_array s' r k ys \<and>
         length ys = length xs \<and>
         (\<forall>i. i < length xs \<longrightarrow>
            ys ! i = xs ! nat ((int i + sint n) mod int (length xs)))))"
proof (intro conjI impI)
  show "rb_ary_rotate s a 0 = Inr (s, Qnil)"
    by (simp add: rb_ary_rotate_def)
next
  assume h: "n \<noteq> 0 \<and> refers_to_array s a k xs"
  then have a: "refers_to_array s a k xs" and n: "n \<noteq> 0" by simp_all
  define ys where "ys = rotate (nat (sint n mod int (length xs))) xs"
  from a have u: "rb_tr_unwrap s a = Inr (MObj k)"
    by (simp add: refers_to_array_def)
  have eq: "rb_ary_rotate s a n =
              (case polyglot_invoke s (MObj k) ''rotate!'' [MInt (sint n)] of
                 Inl e \<Rightarrow> Inl e
               | Inr (s1, m) \<Rightarrow> Inr (rb_tr_wrap s1 m))"
    using n u by (simp add: rb_ary_rotate_def)
  from wrapped_invoke [OF a, of "''rotate!''" "[MInt (sint n)]" ys "MObj k"]
  obtain s' r where res: "rb_ary_rotate s a n = Inr (s', r)"
    and ip: "in_place s s' k ys" and a': "refers_to_array s' a k ys"
    and r: "rb_tr_unwrap s' r = Inr (MObj k)"
    unfolding eq ys_def array_invoke_rotate by blast
  have len: "length ys = length xs" by (simp add: ys_def)
  have nth: "\<forall>i. i < length xs \<longrightarrow>
               ys ! i = xs ! nat ((int i + sint n) mod int (length xs))"
    by (simp add: ys_def nth_rotate_int)
  show "\<exists>s' r ys. rb_ary_rotate s a n = Inr (s', r) \<and>
         in_place s s' k ys \<and> refers_to_array s' a k ys \<and> refers_to_array s' r k ys \<and>
         length ys = length xs \<and>
         (\<forall>i. i < length xs \<longrightarrow>
            ys ! i = xs ! nat ((int i + sint n) mod int (length xs)))"
    by (intro exI conjI) (rule res ip a' in_place_refers [OF a ip r] len nth)+
qed

theorem rb_ary_rotate_contract_witness:
  "refers_to_array s0 (Ref 0) 0 [MInt 1, MInt 2, MInt 3, MInt 4] \<and>
   rb_ary_rotate s0 (Ref 0) 0 = Inr (s0, Qnil) \<and>
   rb_ary_rotate s0 (Ref 0) 1 =
     Inr (\<lparr>heap = [MArray [MInt 2, MInt 3, MInt 4, MInt 1]], handles = [MObj 0, MObj 0],
            dispatches = 1\<rparr>, Ref 1)"
  using rb_ary_rotate_contract [of s0 "Ref 0" 1 0 "[MInt 1, MInt 2, MInt 3, MInt 4]"]
  by (simp add: refers_to_array_def rb_ary_rotate_def s0_def polyglot_invoke_def
      array_invoke_def set_array_def new_handle_def)

section \<open>What each message does\<close>


lemma array_invoke_pop:
  "array_invoke s k xs ''pop'' [] =
     (if xs = [] then Inr (s, MNil) else Inr (set_array s k (butlast xs), last xs))"
  by (simp add: array_invoke_def)

lemma array_invoke_shift:
  "array_invoke s k xs ''shift'' [] =
     (if xs = [] then Inr (s, MNil) else Inr (set_array s k (tl xs), hd xs))"
  by (simp add: array_invoke_def)


lemma array_invoke_store:
  "array_invoke s k xs ''[]='' [MInt i, v] =
     (let j = (if i < 0 then i + int (length xs) else i) in
      if j < 0 then Inl IndexOutOfRange
      else if j < int (length xs) then Inr (set_array s k (xs[nat j := v]), v)
      else Inr (set_array s k (xs @ replicate (nat j - length xs) MNil @ [v]), v))"
  by (simp add: array_invoke_def)

lemma array_invoke_aref:
  "array_invoke s k xs ''[]'' [MInt i] =
     (case ary_index xs i of None \<Rightarrow> Inr (s, MNil) | Some j \<Rightarrow> Inr (s, xs ! j))"
  by (simp add: array_invoke_def)


lemma array_invoke_delete:
  "array_invoke s k xs ''delete'' [v] =
     (if v \<in> set xs then Inr (set_array s k (remove1 v xs), v) else Inr (s, MNil))"
  by (simp add: array_invoke_def)

lemma array_invoke_delete_at:
  "array_invoke s k xs ''delete_at'' [MInt i] =
     (case ary_index xs i of
        None \<Rightarrow> Inr (s, MNil)
      | Some j \<Rightarrow> Inr (set_array s k (take j xs @ drop (Suc j) xs), xs ! j))"
  by (simp add: array_invoke_def)


lemma array_invoke_concat:
  "j < length (heap s) \<Longrightarrow> heap s ! j = MArray ys \<Longrightarrow>
   array_invoke s k xs ''concat'' [MObj j] = Inr (set_array s k (xs @ ys), MObj k)"
  by (simp add: array_invoke_def)


section \<open>The wrappers that answer with the receiver or with an element\<close>

lemma RUBY_INVOKE_elem:
  assumes a: "refers_to_array s a k xs" and args: "unwrap_args s args = Inr as"
      and inv: "array_invoke (s\<lparr>dispatches := Suc (dispatches s)\<rparr>) k xs name as =
                  Inr (set_array (s\<lparr>dispatches := Suc (dispatches s)\<rparr>) k ys, v)"
  shows "\<exists>s' r. RUBY_INVOKE s a name args = Inr (s', r) \<and> in_place s s' k ys \<and>
           refers_to_array s' a k ys \<and> rb_tr_unwrap s' r = Inr v"
  using wrapped_invoke [OF a inv] unfolding RUBY_INVOKE_array [OF a args] by blast

lemma RUBY_INVOKE_self:
  assumes a: "refers_to_array s a k xs" and args: "unwrap_args s args = Inr as"
      and inv: "array_invoke (s\<lparr>dispatches := Suc (dispatches s)\<rparr>) k xs name as =
                  Inr (set_array (s\<lparr>dispatches := Suc (dispatches s)\<rparr>) k ys, MObj k)"
  shows "\<exists>s' r. RUBY_INVOKE s a name args = Inr (s', r) \<and> in_place s s' k ys \<and>
           refers_to_array s' a k ys \<and> refers_to_array s' r k ys"
proof -
  from RUBY_INVOKE_elem [OF a args inv] obtain s' r
    where res: "RUBY_INVOKE s a name args = Inr (s', r)" and ip: "in_place s s' k ys"
      and a': "refers_to_array s' a k ys" and r: "rb_tr_unwrap s' r = Inr (MObj k)"
    by blast
  from res ip a' in_place_refers [OF a ip r] show ?thesis by blast
qed

lemma unchanged_as_set_array:
  assumes "refers_to_array s a k xs"
  shows "set_array (s\<lparr>dispatches := Suc (dispatches s)\<rparr>) k xs =
           s\<lparr>dispatches := Suc (dispatches s)\<rparr>"
  using assms by (simp add: set_array_same refers_to_array_def)






lemma rb_ary_concat_in_place:
  assumes a: "refers_to_array s a k xs" and b: "refers_to_array s b j ys"
  shows "\<exists>s' r. rb_ary_concat s a b = Inr (s', r) \<and> in_place s s' k (xs @ ys) \<and>
           refers_to_array s' a k (xs @ ys) \<and> refers_to_array s' r k (xs @ ys)"
  unfolding rb_ary_concat_def
  using b
  by (intro RUBY_INVOKE_self [OF a, where as = "[MObj j]"])
     (simp_all add: array_invoke_concat refers_to_array_def)




lemma rb_ary_delete_at_in_place:
  assumes a: "refers_to_array s a k xs"
  shows "\<exists>s' r. rb_ary_delete_at s a i = Inr (s', r) \<and>
           in_place s s' k
             (case ary_index xs (sint i) of
                None \<Rightarrow> xs | Some j \<Rightarrow> take j xs @ drop (Suc j) xs) \<and>
           refers_to_array s' a k
             (case ary_index xs (sint i) of
                None \<Rightarrow> xs | Some j \<Rightarrow> take j xs @ drop (Suc j) xs) \<and>
           rb_tr_unwrap s' r =
             Inr (case ary_index xs (sint i) of None \<Rightarrow> MNil | Some j \<Rightarrow> xs ! j)"
proof -
  from a have u: "rb_tr_unwrap s a = Inr (MObj k)"
    by (simp add: refers_to_array_def)
  have eq: "rb_ary_delete_at s a i =
              (case polyglot_invoke s (MObj k) ''delete_at'' [MInt (sint i)] of
                 Inl e \<Rightarrow> Inl e
               | Inr (s1, m) \<Rightarrow> Inr (rb_tr_wrap s1 m))"
    using u by (simp add: rb_ary_delete_at_def)
  have inv: "array_invoke (s\<lparr>dispatches := Suc (dispatches s)\<rparr>) k xs ''delete_at''
               [MInt (sint i)] =
             Inr (set_array (s\<lparr>dispatches := Suc (dispatches s)\<rparr>) k
                    (case ary_index xs (sint i) of
                       None \<Rightarrow> xs | Some j \<Rightarrow> take j xs @ drop (Suc j) xs),
                  case ary_index xs (sint i) of None \<Rightarrow> MNil | Some j \<Rightarrow> xs ! j)"
    by (simp add: array_invoke_delete_at unchanged_as_set_array [OF a] split: option.splits)
  from wrapped_invoke [OF a inv] show ?thesis
    unfolding eq by blast
qed

lemma rb_ary_entry_reads:
  assumes a: "refers_to_array s a k xs"
  shows "rb_ary_entry s a i =
           Inr (rb_tr_wrap (s\<lparr>dispatches := Suc (dispatches s)\<rparr>)
                  (case ary_index xs (sint i) of None \<Rightarrow> MNil | Some j \<Rightarrow> xs ! j))"
  using a
  by (simp add: rb_ary_entry_def refers_to_array_def polyglot_invoke_array
      array_invoke_aref split: option.splits)

section \<open>Absence is nil, not an error\<close>

text \<open>
  C4. Each absence condition ends in a normal return of \<open>Qnil\<close>, never in an error, and
  leaves the array as it was (only the dispatch counter moves): \<open>rb_ary_pop\<close> and
  \<open>rb_ary_shift\<close> on a handle of an empty array, \<open>rb_ary_delete\<close> of a value that no
  element equals, and \<open>rb_ary_entry\<close> at an index that denotes no element (at or past
  the length, or below minus the length: Ruby counts a negative index from the end).
\<close>

theorem absence_returns_nil:
  "(refers_to_array s a k [] \<longrightarrow>
      rb_ary_pop s a = Inr (s\<lparr>dispatches := Suc (dispatches s)\<rparr>, Qnil) \<and>
      rb_ary_shift s a = Inr (s\<lparr>dispatches := Suc (dispatches s)\<rparr>, Qnil)) \<and>
   (refers_to_array s a k xs \<and> rb_tr_unwrap s v = Inr m \<and> m \<notin> set xs \<longrightarrow>
      rb_ary_delete s a v = Inr (s\<lparr>dispatches := Suc (dispatches s)\<rparr>, Qnil)) \<and>
   (refers_to_array s a k xs \<and> (int (length xs) \<le> sint i \<or> sint i < - int (length xs)) \<longrightarrow>
      rb_ary_entry s a i = Inr (s\<lparr>dispatches := Suc (dispatches s)\<rparr>, Qnil))"
proof (intro conjI impI)
  assume a: "refers_to_array s a k []"
  show "rb_ary_pop s a = Inr (s\<lparr>dispatches := Suc (dispatches s)\<rparr>, Qnil)"
    using a
    by (simp add: rb_ary_pop_def RUBY_INVOKE_array [OF a, where as = "[]"]
        polyglot_invoke_array array_invoke_pop refers_to_array_def)
  show "rb_ary_shift s a = Inr (s\<lparr>dispatches := Suc (dispatches s)\<rparr>, Qnil)"
    using a
    by (simp add: rb_ary_shift_def RUBY_INVOKE_array [OF a, where as = "[]"]
        polyglot_invoke_array array_invoke_shift refers_to_array_def)
next
  assume h: "refers_to_array s a k xs \<and> rb_tr_unwrap s v = Inr m \<and> m \<notin> set xs"
  then have a: "refers_to_array s a k xs" by simp
  show "rb_ary_delete s a v = Inr (s\<lparr>dispatches := Suc (dispatches s)\<rparr>, Qnil)"
    using h
    by (simp add: rb_ary_delete_def RUBY_INVOKE_array [OF a, where as = "[m]"]
        polyglot_invoke_array array_invoke_delete refers_to_array_def)
next
  assume h: "refers_to_array s a k xs \<and>
             (int (length xs) \<le> sint i \<or> sint i < - int (length xs))"
  then have a: "refers_to_array s a k xs" by simp
  from h have "ary_index xs (sint i) = None"
    by (auto simp: ary_index_def Let_def)
  then show "rb_ary_entry s a i = Inr (s\<lparr>dispatches := Suc (dispatches s)\<rparr>, Qnil)"
    by (simp add: rb_ary_entry_reads [OF a])
qed

theorem absence_returns_nil_witness:
  "refers_to_array s2 (Ref 2) 2 [] \<and>
   rb_ary_pop s2 (Ref 2) = Inr (s2\<lparr>dispatches := 1\<rparr>, Qnil) \<and>
   rb_ary_shift s2 (Ref 2) = Inr (s2\<lparr>dispatches := 1\<rparr>, Qnil) \<and>
   refers_to_array s2 (Ref 0) 0 [MInt 3, MInt 1, MInt 2] \<and>
   rb_tr_unwrap s2 (Fixnum 5) = Inr (MInt 5) \<and>
   rb_ary_delete s2 (Ref 0) (Fixnum 5) = Inr (s2\<lparr>dispatches := 1\<rparr>, Qnil) \<and>
   rb_ary_entry s2 (Ref 0) 3 = Inr (s2\<lparr>dispatches := 1\<rparr>, Qnil) \<and>
   rb_ary_entry s2 (Ref 0) (- 4) = Inr (s2\<lparr>dispatches := 1\<rparr>, Qnil)"
  using absence_returns_nil [of s2 "Ref 2" 2 "[]" "Fixnum 5" "MInt 5" 0]
    absence_returns_nil [of s2 "Ref 0" 0 "[MInt 3, MInt 1, MInt 2]" "Fixnum 5" "MInt 5" 3]
    absence_returns_nil [of s2 "Ref 0" 0 "[MInt 3, MInt 1, MInt 2]" "Fixnum 5" "MInt 5" "- 4"]
  by (simp add: refers_to_array_def s2_def FIXABLE_def)

section \<open>Concatenation\<close>

text \<open>
  C5. For handles \<open>a\<close> and \<open>b\<close> of arrays with elements \<open>xs\<close> and \<open>ys\<close>, \<open>rb_ary_concat\<close>
  succeeds; the array object \<open>a\<close> refers to now holds \<open>xs @ ys\<close> (the elements of \<open>a\<close>
  followed by those of \<open>b\<close>, each in its order, \<open>length xs + length ys\<close> of them), no
  other object of the heap changed and none was allocated, and the handle returned
  refers to the same object as \<open>a\<close>.
\<close>

theorem rb_ary_concat_contract:
  assumes "refers_to_array s a k xs" and "refers_to_array s b j ys"
  shows "\<exists>s' r zs. rb_ary_concat s a b = Inr (s', r) \<and>
           in_place s s' k zs \<and> refers_to_array s' a k zs \<and> refers_to_array s' r k zs \<and>
           zs = xs @ ys \<and> length zs = length xs + length ys \<and>
           (\<forall>i. i < length xs \<longrightarrow> zs ! i = xs ! i) \<and>
           (\<forall>i. i < length ys \<longrightarrow> zs ! (length xs + i) = ys ! i)"
proof -
  from rb_ary_concat_in_place [OF assms] obtain s' r
    where "rb_ary_concat s a b = Inr (s', r)" and "in_place s s' k (xs @ ys)"
      and "refers_to_array s' a k (xs @ ys)" and "refers_to_array s' r k (xs @ ys)"
    by blast
  then show ?thesis
    by (intro exI [of _ s'] exI [of _ r] exI [of _ "xs @ ys"]) (simp add: nth_append)
qed

theorem rb_ary_concat_contract_witness:
  "refers_to_array s2 (Ref 0) 0 [MInt 3, MInt 1, MInt 2] \<and>
   refers_to_array s2 (Ref 1) 1 [MInt 7, MInt 8] \<and>
   rb_ary_concat s2 (Ref 0) (Ref 1) =
     Inr (\<lparr>heap = [MArray [MInt 3, MInt 1, MInt 2, MInt 7, MInt 8], MArray [MInt 7, MInt 8],
                    MArray [], MOther],
            handles = [MObj 0, MObj 1, MObj 2, MObj 3, MObj 0], dispatches = 1\<rparr>, Ref 4)"
  using rb_ary_concat_contract [of s2 "Ref 0" 0 "[MInt 3, MInt 1, MInt 2]" "Ref 1" 1
      "[MInt 7, MInt 8]"]
  by (simp add: refers_to_array_def s2_def rb_ary_concat_def RUBY_INVOKE_def
      RUBY_INVOKE_NO_WRAP_def polyglot_invoke_def array_invoke_def set_array_def
      new_handle_def)

section \<open>Deleting at an index\<close>

text \<open>
  C9. For a handle of an array with elements \<open>xs\<close> and an index \<open>i\<close> with
  \<open>0 \<le> i < length xs\<close>, \<open>rb_ary_delete_at\<close> succeeds and returns a handle of the element
  that was at \<open>i\<close>; the array, changed in place, is one element shorter; every element
  that was at an index \<open>j > i\<close> is now at \<open>j - 1\<close>, and the elements before \<open>i\<close> stay.
\<close>

theorem rb_ary_delete_at_contract:
  assumes "refers_to_array s a k xs" and "0 \<le> sint i" and "sint i < int (length xs)"
  shows "\<exists>s' r ys. rb_ary_delete_at s a i = Inr (s', r) \<and>
           in_place s s' k ys \<and> refers_to_array s' a k ys \<and>
           rb_tr_unwrap s' r = Inr (xs ! nat (sint i)) \<and>
           length ys = length xs - 1 \<and>
           (\<forall>j. nat (sint i) < j \<and> j < length xs \<longrightarrow> ys ! (j - 1) = xs ! j) \<and>
           (\<forall>j. j < nat (sint i) \<longrightarrow> ys ! j = xs ! j)"
proof -
  define p where "p = nat (sint i)"
  define ys where "ys = take p xs @ drop (Suc p) xs"
  from assms(2,3) have p: "p < length xs" and idx: "ary_index xs (sint i) = Some p"
    by (auto simp: p_def ary_index_def Let_def)
  from rb_ary_delete_at_in_place [OF assms(1), of i] obtain s' r
    where res: "rb_ary_delete_at s a i = Inr (s', r)" and ip: "in_place s s' k ys"
      and a': "refers_to_array s' a k ys" and r: "rb_tr_unwrap s' r = Inr (xs ! p)"
    unfolding idx ys_def by auto
  have len: "length ys = length xs - 1"
    using p by (simp add: ys_def)
  have after: "\<forall>j. p < j \<and> j < length xs \<longrightarrow> ys ! (j - 1) = xs ! j"
  proof (intro allI impI)
    fix j assume j: "p < j \<and> j < length xs"
    then have "\<not> j - 1 < p" by linarith
    then have "ys ! (j - 1) = drop (Suc p) xs ! (j - 1 - p)"
      using p by (simp add: ys_def nth_append)
    also have "\<dots> = xs ! j"
      using j by simp
    finally show "ys ! (j - 1) = xs ! j" .
  qed
  have before: "\<forall>j. j < p \<longrightarrow> ys ! j = xs ! j"
    using p by (simp add: ys_def nth_append)
  show ?thesis
    using res ip a' r len after before unfolding p_def by blast
qed

theorem rb_ary_delete_at_contract_witness:
  "refers_to_array s2 (Ref 0) 0 [MInt 3, MInt 1, MInt 2] \<and>
   rb_ary_delete_at s2 (Ref 0) 1 =
     Inr (\<lparr>heap = [MArray [MInt 3, MInt 2], MArray [MInt 7, MInt 8], MArray [], MOther],
            handles = [MObj 0, MObj 1, MObj 2, MObj 3], dispatches = 1\<rparr>, Fixnum 1)"
  using rb_ary_delete_at_contract [of s2 "Ref 0" 0 "[MInt 3, MInt 1, MInt 2]" 1]
  by (simp add: refers_to_array_def s2_def rb_ary_delete_at_def polyglot_invoke_def
      array_invoke_def ary_index_def set_array_def FIXABLE_def)

section \<open>Wrapping what a handle unwraps to\<close>

text \<open>
  C3. Let \<open>h\<close> be a valid handle in the state \<open>s\<close>, \<open>v\<close> the managed value it unwraps to,
  and \<open>h'\<close> the handle that wrapping \<open>v\<close> gives (in the state \<open>s'\<close>). Then \<open>h'\<close> unwraps to
  the same managed value \<open>v\<close>, \<open>h\<close> itself still does, and the managed heap is untouched.
  The two handles need not be equal: only when \<open>h\<close> is a tagged immediate is \<open>h' = h\<close>
  guaranteed (and then the handle table did not change either). Among valid tagged
  immediates, two handles are equal exactly when their values are.
\<close>

theorem wrap_unwrap_equivalent:
  assumes "rb_tr_unwrap s h = Inr v" and "rb_tr_wrap s v = (s', h')"
  shows "rb_tr_unwrap s' h' = Inr v \<and> rb_tr_unwrap s' h = Inr v \<and> heap s' = heap s \<and>
         (immediate h \<longrightarrow> h' = h \<and> s' = s) \<and>
         (immediate h \<and> immediate g \<and> rb_tr_unwrap s g = Inr w \<longrightarrow> (h = g \<longleftrightarrow> v = w))"
proof (intro conjI impI)
  show "rb_tr_unwrap s' h' = Inr v"
    by (rule rb_tr_wrap_result(4) [OF assms(2)])
  show "rb_tr_unwrap s' h = Inr v"
    by (rule rb_tr_unwrap_extend [OF rb_tr_wrap_result(3) [OF assms(2)] assms(1)])
  show "heap s' = heap s"
    by (rule rb_tr_wrap_result(1) [OF assms(2)])
next
  assume "immediate h"
  with assms show "h' = h"
    by (cases h) (auto split: if_splits)
next
  assume "immediate h"
  with assms show "s' = s"
    by (cases h) (auto split: if_splits)
next
  assume "immediate h \<and> immediate g \<and> rb_tr_unwrap s g = Inr w"
  with assms(1) show "h = g \<longleftrightarrow> v = w"
    by (cases h; cases g) (auto split: if_splits)
qed

theorem wrap_unwrap_equivalent_witness:
  "rb_tr_unwrap s0 (Ref 0) = Inr (MObj 0) \<and>
   rb_tr_wrap s0 (MObj 0) = (s0\<lparr>handles := [MObj 0, MObj 0]\<rparr>, Ref 1) \<and>
   rb_tr_unwrap (s0\<lparr>handles := [MObj 0, MObj 0]\<rparr>) (Ref 1) = Inr (MObj 0) \<and>
   rb_tr_unwrap (s0\<lparr>handles := [MObj 0, MObj 0]\<rparr>) (Ref 0) = Inr (MObj 0) \<and>
   Ref 1 \<noteq> Ref 0 \<and>
   rb_tr_unwrap s0 (Fixnum 7) = Inr (MInt 7) \<and>
   rb_tr_wrap s0 (MInt 7) = (s0, Fixnum 7)"
  using wrap_unwrap_equivalent [of s0 "Ref 0" "MObj 0" "s0\<lparr>handles := [MObj 0, MObj 0]\<rparr>"
      "Ref 1" Qnil MNil]
    wrap_unwrap_equivalent [of s0 "Fixnum 7" "MInt 7" s0 "Fixnum 7" Qnil MNil]
  by (simp add: s0_def new_handle_def FIXABLE_def)

section \<open>The index of \<open>RARRAY_AREF\<close> is cut to 32 bits\<close>

lemma sint_ucast_32_eq:
  assumes "- (2 ^ 31) \<le> sint (i :: 64 word)" and "sint i < 2 ^ 31"
  shows "sint (ucast i :: 32 word) = sint i"
proof -
  have "sint (ucast i :: 32 word) = signed_take_bit 31 (take_bit 32 (uint i))"
    by (simp add: sint_uint unsigned_ucast_eq)
  also have "\<dots> = signed_take_bit 31 (uint i)"
    by (simp add: signed_take_bit_take_bit)
  also have "\<dots> = signed_take_bit 31 (signed_take_bit 63 (uint i))"
    by simp
  also have "\<dots> = signed_take_bit 31 (sint i)"
    by (simp add: sint_uint)
  also have "\<dots> = sint i"
    using assms by (simp add: signed_take_bit_int_eq_self)
  finally show ?thesis .
qed

lemma sint_ucast_32_neq:
  assumes "\<not> (- (2 ^ 31) \<le> sint (i :: 64 word) \<and> sint i < 2 ^ 31)"
  shows "sint (ucast i :: 32 word) \<noteq> sint i"
proof -
  have "- (2 ^ 31) \<le> sint (ucast i :: 32 word)"
    using sint_ge [of "ucast i :: 32 word"] by simp
  moreover have "sint (ucast i :: 32 word) < 2 ^ 31"
    using sint_lt [of "ucast i :: 32 word"] by simp
  ultimately show ?thesis using assms by auto
qed

text \<open>
  C10. \<open>RARRAY_AREF\<close> reads the element at the position \<open>(int) index\<close>, the \<open>long\<close> index
  cut to its low 32 bits and read as a signed \<open>int\<close>: when that position is inside the
  array, the element there is what it returns, and two indices with the same low 32
  bits give the same result. The position read equals the requested index exactly when
  the index is representable as a 32-bit \<open>int\<close>; for every other index it differs.
  \<open>rb_ary_entry\<close> in contrast hands the whole \<open>long\<close> to the managed \<open>[]\<close>.
\<close>

theorem RARRAY_AREF_truncates_index:
  assumes "refers_to_array s a k xs"
  shows "(0 \<le> sint (ucast i :: 32 word) \<and> sint (ucast i :: 32 word) < int (length xs) \<longrightarrow>
            RARRAY_AREF s a i = Inr (rb_tr_wrap s (xs ! nat (sint (ucast i :: 32 word))))) \<and>
         ((ucast i :: 32 word) = ucast i' \<longrightarrow> RARRAY_AREF s a i = RARRAY_AREF s a i') \<and>
         (sint (ucast i :: 32 word) = sint i \<longleftrightarrow> - (2 ^ 31) \<le> sint i \<and> sint i < 2 ^ 31) \<and>
         rb_ary_entry s a i =
           Inr (rb_tr_wrap (s\<lparr>dispatches := Suc (dispatches s)\<rparr>)
                  (case ary_index xs (sint i) of None \<Rightarrow> MNil | Some j \<Rightarrow> xs ! j))"
proof (intro conjI impI)
  assume "0 \<le> sint (ucast i :: 32 word) \<and> sint (ucast i :: 32 word) < int (length xs)"
  with assms
  show "RARRAY_AREF s a i = Inr (rb_tr_wrap s (xs ! nat (sint (ucast i :: 32 word))))"
    by (simp add: RARRAY_AREF_def polyglot_get_array_element_def refers_to_array_def)
next
  assume "(ucast i :: 32 word) = ucast i'"
  then show "RARRAY_AREF s a i = RARRAY_AREF s a i'"
    by (simp add: RARRAY_AREF_def split: sum.splits)
next
  show "sint (ucast i :: 32 word) = sint i \<longleftrightarrow> - (2 ^ 31) \<le> sint i \<and> sint i < 2 ^ 31"
    using sint_ucast_32_eq [of i] sint_ucast_32_neq [of i] by blast
next
  show "rb_ary_entry s a i =
          Inr (rb_tr_wrap (s\<lparr>dispatches := Suc (dispatches s)\<rparr>)
                 (case ary_index xs (sint i) of None \<Rightarrow> MNil | Some j \<Rightarrow> xs ! j))"
    by (rule rb_ary_entry_reads [OF assms])
qed

theorem RARRAY_AREF_truncates_index_witness:
  "refers_to_array s0 (Ref 0) 0 [MInt 1, MInt 2, MInt 3, MInt 4] \<and>
   sint (ucast (4294967297 :: 64 word) :: 32 word) = 1 \<and>
   RARRAY_AREF s0 (Ref 0) 4294967297 = Inr (s0, Fixnum 2) \<and>
   RARRAY_AREF s0 (Ref 0) 1 = Inr (s0, Fixnum 2) \<and>
   rb_ary_entry s0 (Ref 0) 4294967297 = Inr (s0\<lparr>dispatches := 1\<rparr>, Qnil)"
  using RARRAY_AREF_truncates_index [of s0 "Ref 0" 0 "[MInt 1, MInt 2, MInt 3, MInt 4]"
      4294967297 1]
  by (simp add: refers_to_array_def s0_def ary_index_def FIXABLE_def RARRAY_AREF_def
      polyglot_get_array_element_def)

section \<open>Building an array element by element\<close>

declare rb_ary_new_from_values_loop.simps [simp del]

lemma unwrap_args_extend:
  assumes "take (length (handles s)) (handles s') = handles s"
  shows "unwrap_args s vs = Inr ms \<Longrightarrow> unwrap_args s' vs = Inr ms"
proof (induction vs arbitrary: ms)
  case Nil
  then show ?case by simp
next
  case (Cons v vs)
  then obtain m ms' where m: "rb_tr_unwrap s v = Inr m" and ms': "unwrap_args s vs = Inr ms'"
    and eq: "ms = m # ms'"
    by (auto split: sum.splits)
  from rb_tr_unwrap_extend [OF assms m] Cons.IH [OF ms'] eq show ?case by simp
qed

lemma unwrap_args_replicate_Qnil:
  "unwrap_args s (replicate c Qnil) = Inr (replicate c MNil)"
  by (induction c) simp_all

lemma LONG2FIX_of_int:
  assumes "0 \<le> i" and "i \<le> INT_MAX"
  shows "LONG2FIX (of_int i) = Fixnum i" and "FIXABLE i"
proof -
  from assms have "sint (of_int i :: 64 word) = i"
    by (simp add: sint_sbintrunc' signed_take_bit_int_eq_self INT_MAX_def)
  moreover from assms have "signed_take_bit 62 i = i"
    by (simp add: signed_take_bit_int_eq_self INT_MAX_def)
  ultimately show "LONG2FIX (of_int i) = Fixnum i"
    by (simp add: LONG2FIX_def)
  from assms show "FIXABLE i"
    by (simp add: FIXABLE_def INT_MAX_def)
qed

lemma rb_ary_store_append:
  assumes a: "refers_to_array s a k xs" and v: "rb_tr_unwrap s v = Inr m"
      and i: "i = int (length xs)" and bound: "i \<le> INT_MAX"
  shows "rb_ary_store s a (of_int i) v =
           Inr (set_array (s\<lparr>dispatches := Suc (dispatches s)\<rparr>) k (xs @ [m]))"
proof -
  from i have i0: "0 \<le> i" by simp
  from a have u: "rb_tr_unwrap s a = Inr (MObj k)" and k: "k < length (heap s)"
    and xs: "heap s ! k = MArray xs"
    by (simp_all add: refers_to_array_def)
  have "RUBY_INVOKE_NO_WRAP s a ''[]='' [LONG2FIX (of_int i), v] =
          array_invoke (s\<lparr>dispatches := Suc (dispatches s)\<rparr>) k xs ''[]='' [MInt i, m]"
    using u k xs v LONG2FIX_of_int [OF i0 bound]
    by (simp add: RUBY_INVOKE_NO_WRAP_def polyglot_invoke_array)
  also have "\<dots> = Inr (set_array (s\<lparr>dispatches := Suc (dispatches s)\<rparr>) k (xs @ [m]), m)"
    using i by (simp add: array_invoke_store)
  finally show ?thesis by (simp add: rb_ary_store_def)
qed

lemma refers_to_array_after_store:
  assumes "refers_to_array s a k xs"
  shows "refers_to_array (set_array (s\<lparr>dispatches := Suc (dispatches s)\<rparr>) k ys) a k ys"
  using assms rb_tr_unwrap_same_handles
    [of "set_array (s\<lparr>dispatches := Suc (dispatches s)\<rparr>) k ys" s a]
  by (simp add: refers_to_array_def set_array_def)

lemma unwrap_args_after_store:
  "unwrap_args (set_array (s\<lparr>dispatches := Suc (dispatches s)\<rparr>) k ys) vs = unwrap_args s vs"
  by (rule unwrap_args_same_handles) (simp add: set_array_def)

lemma from_args_loop_ok:
  "refers_to_array s a k xs \<Longrightarrow> unwrap_args s vs = Inr ms \<Longrightarrow> i = int (length xs) \<Longrightarrow>
   sint n = i + int (length vs) \<Longrightarrow> sint n \<le> INT_MAX \<Longrightarrow>
   rb_ary_new_from_args_loop s a i n vs =
     Inr (s\<lparr>heap := (heap s)[k := MArray (xs @ ms)],
            dispatches := dispatches s + length vs\<rparr>)"
proof (induction vs arbitrary: s xs i ms)
  case Nil
  from Nil.prems(1) have "(heap s)[k := MArray xs] = heap s"
    using list_update_id [of "heap s" k] by (simp add: refers_to_array_def)
  with Nil show ?case by simp
next
  case (Cons v vs)
  from Cons.prems(2) obtain m ms' where m: "rb_tr_unwrap s v = Inr m"
    and ms': "unwrap_args s vs = Inr ms'" and eq: "ms = m # ms'"
    by (auto split: sum.splits)
  define s1 where "s1 = set_array (s\<lparr>dispatches := Suc (dispatches s)\<rparr>) k (xs @ [m])"
  from Cons.prems(3,4,5) have lt: "i < sint n" and ne: "i \<noteq> INT_MAX" and le: "i \<le> INT_MAX"
    by simp_all
  have st: "rb_ary_store s a (of_int i) v = Inr s1"
    unfolding s1_def by (rule rb_ary_store_append [OF Cons.prems(1) m Cons.prems(3) le])
  have a1: "refers_to_array s1 a k (xs @ [m])"
    unfolding s1_def by (rule refers_to_array_after_store [OF Cons.prems(1)])
  have u1: "unwrap_args s1 vs = Inr ms'"
    unfolding s1_def using ms' by (simp add: unwrap_args_after_store)
  have "rb_ary_new_from_args_loop s1 a (i + 1) n vs =
          Inr (s1\<lparr>heap := (heap s1)[k := MArray ((xs @ [m]) @ ms')],
                  dispatches := dispatches s1 + length vs\<rparr>)"
    using Cons.prems(3,4,5) by (intro Cons.IH [OF a1 u1]) simp_all
  then show ?case
    using lt ne st eq by (simp add: s1_def set_array_def)
qed

lemma from_args_loop_overflow:
  "refers_to_array s a k xs \<Longrightarrow> unwrap_args s vs = Inr ms \<Longrightarrow> i = int (length xs) \<Longrightarrow>
   i \<le> INT_MAX \<Longrightarrow> INT_MAX < sint n \<Longrightarrow>
   rb_ary_new_from_args_loop s a i n vs = Inl UndefinedBehaviour"
proof (induction vs arbitrary: s xs i ms)
  case Nil
  then show ?case by simp
next
  case (Cons v vs)
  from Cons.prems(2) obtain m ms' where m: "rb_tr_unwrap s v = Inr m"
    and ms': "unwrap_args s vs = Inr ms'"
    by (auto split: sum.splits)
  define s1 where "s1 = set_array (s\<lparr>dispatches := Suc (dispatches s)\<rparr>) k (xs @ [m])"
  from Cons.prems(4,5) have lt: "i < sint n" by simp
  have st: "rb_ary_store s a (of_int i) v = Inr s1"
    unfolding s1_def
    by (rule rb_ary_store_append [OF Cons.prems(1) m Cons.prems(3) Cons.prems(4)])
  show ?case
  proof (cases "i = INT_MAX")
    case True
    with lt st show ?thesis by simp
  next
    case False
    have a1: "refers_to_array s1 a k (xs @ [m])"
      unfolding s1_def by (rule refers_to_array_after_store [OF Cons.prems(1)])
    have u1: "unwrap_args s1 vs = Inr ms'"
      unfolding s1_def using ms' by (simp add: unwrap_args_after_store)
    have "rb_ary_new_from_args_loop s1 a (i + 1) n vs = Inl UndefinedBehaviour"
      using Cons.prems(3,4,5) False by (intro Cons.IH [OF a1 u1]) simp_all
    with lt st False show ?thesis by simp
  qed
qed

lemma from_values_loop_ok:
  "refers_to_array s a k (take (nat i) ms) \<Longrightarrow> unwrap_args s vs = Inr ms \<Longrightarrow> 0 \<le> i \<Longrightarrow>
   i \<le> int (length vs) \<Longrightarrow> sint n = int (length vs) \<Longrightarrow> sint n \<le> INT_MAX \<Longrightarrow>
   rb_ary_new_from_values_loop s a i n vs =
     Inr (s\<lparr>heap := (heap s)[k := MArray ms],
            dispatches := dispatches s + (length vs - nat i)\<rparr>)"
proof (induction "length vs - nat i" arbitrary: s i)
  case 0
  then have i: "nat i = length vs" and ge: "\<not> i < sint n" by simp_all
  from unwrap_args_nth [OF "0.prems"(2)] have len: "length ms = length vs" by simp
  from "0.prems"(1) i len have "(heap s)[k := MArray ms] = heap s"
    using list_update_id [of "heap s" k] by (simp add: refers_to_array_def)
  with ge i show ?case
    by (simp add: rb_ary_new_from_values_loop.simps [of s a i n vs])
next
  case (Suc d)
  from unwrap_args_nth [OF Suc.prems(2)] have len: "length ms = length vs"
    and nth: "\<forall>j. j < length vs \<longrightarrow> rb_tr_unwrap s (vs ! j) = Inr (ms ! j)"
    by simp_all
  from Suc.hyps(2) Suc.prems(3) have lt: "nat i < length vs" and lt': "i < sint n"
    using Suc.prems(5) by simp_all
  from lt' Suc.prems(6) have ne: "i \<noteq> INT_MAX" and le: "i \<le> INT_MAX" by simp_all
  define s1 where
    "s1 = set_array (s\<lparr>dispatches := Suc (dispatches s)\<rparr>) k (take (nat i) ms @ [ms ! nat i])"
  have il: "i = int (length (take (nat i) ms))"
    using lt len Suc.prems(3) by simp
  have st: "rb_ary_store s a (of_int i) (vs ! nat i) = Inr s1"
    unfolding s1_def using nth lt
    by (intro rb_ary_store_append [OF Suc.prems(1) _ il le]) simp
  have tk: "take (nat i) ms @ [ms ! nat i] = take (nat (i + 1)) ms"
    using lt len Suc.prems(3) by (simp add: take_Suc_conv_app_nth nat_add_distrib)
  have a1: "refers_to_array s1 a k (take (nat (i + 1)) ms)"
    unfolding s1_def tk [symmetric] by (rule refers_to_array_after_store [OF Suc.prems(1)])
  have u1: "unwrap_args s1 vs = Inr ms"
    unfolding s1_def using Suc.prems(2) by (simp add: unwrap_args_after_store)
  have d: "d = length vs - nat (i + 1)"
    using Suc.hyps(2) Suc.prems(3) by (simp add: nat_add_distrib)
  have "rb_ary_new_from_values_loop s1 a (i + 1) n vs =
          Inr (s1\<lparr>heap := (heap s1)[k := MArray ms],
                  dispatches := dispatches s1 + (length vs - nat (i + 1))\<rparr>)"
    using Suc.prems(3,5,6) lt by (intro Suc.hyps(1) [OF d a1 u1]) simp_all
  moreover have "Suc (dispatches s) + (length vs - nat (i + 1)) =
                 dispatches s + (length vs - nat i)"
    using lt Suc.prems(3) by (simp add: nat_add_distrib)
  ultimately show ?case
    using lt lt' ne st Suc.prems(3)
    by (simp add: rb_ary_new_from_values_loop.simps [of s a i n vs] s1_def set_array_def)
qed

lemma from_values_loop_overflow:
  "refers_to_array s a k (take (nat i) ms) \<Longrightarrow> unwrap_args s vs = Inr ms \<Longrightarrow> 0 \<le> i \<Longrightarrow>
   i \<le> INT_MAX \<Longrightarrow> INT_MAX < sint n \<Longrightarrow>
   rb_ary_new_from_values_loop s a i n vs = Inl UndefinedBehaviour"
proof (induction "nat (INT_MAX - i)" arbitrary: s i)
  case 0
  then have i: "i = INT_MAX" and lt': "i < sint n" by simp_all
  show ?case
  proof (cases "nat i < length vs")
    case False
    with lt' show ?thesis
      by (simp add: rb_ary_new_from_values_loop.simps [of s a i n vs])
  next
    case True
    from unwrap_args_nth [OF "0.prems"(2)] have len: "length ms = length vs"
      and nth: "\<forall>j. j < length vs \<longrightarrow> rb_tr_unwrap s (vs ! j) = Inr (ms ! j)"
      by simp_all
    have il: "i = int (length (take (nat i) ms))"
      using True len "0.prems"(3) by simp
    have "rb_ary_store s a (of_int i) (vs ! nat i) =
            Inr (set_array (s\<lparr>dispatches := Suc (dispatches s)\<rparr>) k
                   (take (nat i) ms @ [ms ! nat i]))"
      using nth True by (intro rb_ary_store_append [OF "0.prems"(1) _ il "0.prems"(4)]) simp
    with True lt' i "0.prems"(3) show ?thesis
      unfolding rb_ary_new_from_values_loop.simps [of s a i n vs] by simp
  qed
next
  case (Suc d)
  then have ne: "i \<noteq> INT_MAX" and lt': "i < sint n" by simp_all
  show ?case
  proof (cases "nat i < length vs")
    case False
    with lt' show ?thesis
      by (simp add: rb_ary_new_from_values_loop.simps [of s a i n vs])
  next
    case True
    from unwrap_args_nth [OF Suc.prems(2)] have len: "length ms = length vs"
      and nth: "\<forall>j. j < length vs \<longrightarrow> rb_tr_unwrap s (vs ! j) = Inr (ms ! j)"
      by simp_all
    define s1 where
      "s1 = set_array (s\<lparr>dispatches := Suc (dispatches s)\<rparr>) k
              (take (nat i) ms @ [ms ! nat i])"
    have il: "i = int (length (take (nat i) ms))"
      using True len Suc.prems(3) by simp
    have st: "rb_ary_store s a (of_int i) (vs ! nat i) = Inr s1"
      unfolding s1_def using nth True
      by (intro rb_ary_store_append [OF Suc.prems(1) _ il Suc.prems(4)]) simp
    have tk: "take (nat i) ms @ [ms ! nat i] = take (nat (i + 1)) ms"
      using True len Suc.prems(3) by (simp add: take_Suc_conv_app_nth nat_add_distrib)
    have a1: "refers_to_array s1 a k (take (nat (i + 1)) ms)"
      unfolding s1_def tk [symmetric] by (rule refers_to_array_after_store [OF Suc.prems(1)])
    have u1: "unwrap_args s1 vs = Inr ms"
      unfolding s1_def using Suc.prems(2) by (simp add: unwrap_args_after_store)
    have d: "d = nat (INT_MAX - (i + 1))"
      using Suc.hyps(2) by simp
    have "rb_ary_new_from_values_loop s1 a (i + 1) n vs = Inl UndefinedBehaviour"
      using Suc.prems(3,4,5) ne by (intro Suc.hyps(1) [OF d a1 u1]) simp_all
    with True lt' ne st Suc.prems(3) show ?thesis
      by (simp add: rb_ary_new_from_values_loop.simps [of s a i n vs])
  qed
qed

lemma rb_ary_new_capa_result:
  "rb_ary_new_capa s n =
     Inr (s\<lparr>heap := heap s @ [MArray []],
            handles := handles s @ [MObj (length (heap s))],
            dispatches := Suc (dispatches s)\<rparr>, Ref (length (handles s)))"
  by (simp add: rb_ary_new_capa_def polyglot_invoke_def cext_invoke_def new_array_def
      new_handle_def)

lemma new_capa_state:
  fixes s :: runtime
  defines "s1 \<equiv> s\<lparr>heap := heap s @ [MArray []],
                    handles := handles s @ [MObj (length (heap s))],
                    dispatches := Suc (dispatches s)\<rparr>"
  assumes "unwrap_args s vs = Inr ms"
  shows "refers_to_array s1 (Ref (length (handles s))) (length (heap s)) []"
    and "unwrap_args s1 vs = Inr ms"
proof -
  show "refers_to_array s1 (Ref (length (handles s))) (length (heap s)) []"
    by (simp add: refers_to_array_def s1_def)
  have "take (length (handles s)) (handles s1) = handles s"
    by (simp add: s1_def)
  from unwrap_args_extend [OF this assms(2)] show "unwrap_args s1 vs = Inr ms" .
qed

lemma rb_ary_new_from_args_result:
  assumes "unwrap_args s vs = Inr ms" and "sint n = int (length vs)" and "sint n \<le> INT_MAX"
  shows "rb_ary_new_from_args s n vs =
           Inr (s\<lparr>heap := heap s @ [MArray ms],
                  handles := handles s @ [MObj (length (heap s))],
                  dispatches := dispatches s + length vs + 1\<rparr>, Ref (length (handles s)))"
proof -
  note st = new_capa_state [OF assms(1)]
  from from_args_loop_ok [OF st(1) st(2), of 0 n] assms(2,3)
  show ?thesis
    by (simp add: rb_ary_new_from_args_def rb_ary_new_capa_result)
qed

lemma rb_ary_new_from_values_result:
  assumes "unwrap_args s vs = Inr ms" and "sint n = int (length vs)" and "sint n \<le> INT_MAX"
  shows "rb_ary_new_from_values s n vs =
           Inr (s\<lparr>heap := heap s @ [MArray ms],
                  handles := handles s @ [MObj (length (heap s))],
                  dispatches := dispatches s + length vs + 1\<rparr>, Ref (length (handles s)))"
proof -
  note st = new_capa_state [OF assms(1)]
  from st(1) have "refers_to_array
      (s\<lparr>heap := heap s @ [MArray []], handles := handles s @ [MObj (length (heap s))],
         dispatches := Suc (dispatches s)\<rparr>)
      (Ref (length (handles s))) (length (heap s)) (take (nat 0) ms)"
    by simp
  from from_values_loop_ok [OF this st(2), of n] assms(2,3)
  show ?thesis
    by (simp add: rb_ary_new_from_values_def rb_ary_new_capa_result)
qed

lemma new_from_overflow:
  assumes "unwrap_args s vs = Inr ms" and "INT_MAX < sint n"
  shows "rb_ary_new_from_args s n vs = Inl UndefinedBehaviour"
    and "rb_ary_new_from_values s n vs = Inl UndefinedBehaviour"
proof -
  note st = new_capa_state [OF assms(1)]
  have m: "0 \<le> INT_MAX" by (simp add: INT_MAX_def)
  from from_args_loop_overflow [OF st(1) st(2), of 0 n] assms(2) m
  show "rb_ary_new_from_args s n vs = Inl UndefinedBehaviour"
    by (simp add: rb_ary_new_from_args_def rb_ary_new_capa_result)
  from st(1) have "refers_to_array
      (s\<lparr>heap := heap s @ [MArray []], handles := handles s @ [MObj (length (heap s))],
         dispatches := Suc (dispatches s)\<rparr>)
      (Ref (length (handles s))) (length (heap s)) (take (nat 0) ms)"
    by simp
  from from_values_loop_overflow [OF this st(2), of n] assms(2) m
  show "rb_ary_new_from_values s n vs = Inl UndefinedBehaviour"
    by (simp add: rb_ary_new_from_values_def rb_ary_new_capa_result)
qed

lemma last_store_then_overflow:
  assumes a: "refers_to_array s a k xs" and v: "rb_tr_unwrap s v = Inr m"
      and len: "int (length xs) = INT_MAX" and n: "INT_MAX < sint n"
  shows "rb_ary_store s a (of_int INT_MAX) v =
           Inr (set_array (s\<lparr>dispatches := Suc (dispatches s)\<rparr>) k (xs @ [m]))"
    and "rb_ary_new_from_args_loop s a INT_MAX n (v # rest) = Inl UndefinedBehaviour"
proof -
  show st: "rb_ary_store s a (of_int INT_MAX) v =
              Inr (set_array (s\<lparr>dispatches := Suc (dispatches s)\<rparr>) k (xs @ [m]))"
    by (rule rb_ary_store_append [OF a v]) (simp_all add: len)
  from n st show "rb_ary_new_from_args_loop s a INT_MAX n (v # rest) = Inl UndefinedBehaviour"
    by simp
qed

text \<open>
  C7. The code at \<open>n = 2147483648\<close> with that many valid handles (all \<open>Qnil\<close>), for both
  functions. The loop counter is an \<open>int\<close> compared with the \<open>long n\<close>. Every store is made,
  in order, the last one at \<open>i = INT_MAX\<close> (lemma \<open>last_store_then_overflow\<close>); the
  \<open>i++\<close> that follows it is a signed overflow, which C leaves undefined, so the loop
  has no defined exit. The call has no defined result, where the claim promises the
  array of \<open>n\<close> elements.
\<close>

theorem rb_ary_new_from_counter_overflow:
  "rb_ary_new_from_args s_empty 2147483648 (replicate 2147483648 Qnil) =
     Inl UndefinedBehaviour \<and>
   rb_ary_new_from_values s_empty 2147483648 (replicate 2147483648 Qnil) =
     Inl UndefinedBehaviour"
proof -
  have n: "INT_MAX < sint (2147483648 :: 64 word)"
    by (simp add: INT_MAX_def)
  from new_from_overflow [OF unwrap_args_replicate_Qnil n] show ?thesis
    by blast
qed

text \<open>
  Where the count fits an \<open>int\<close> the counter never overflows. For every \<open>n\<close> from 0 to
  \<open>INT_MAX\<close> and every sequence \<open>vs\<close> of \<open>n\<close> valid handles, \<open>rb_ary_new_from_args\<close> and
  \<open>rb_ary_new_from_values\<close> both succeed, with the same result: a handle of a newly
  created array (a new object at the end of the heap, every older object untouched) of
  exactly \<open>n\<close> elements, whose element at index \<open>i\<close> is the managed value the \<open>i\<close>-th
  given handle refers to.
\<close>

theorem rb_ary_new_from_contract:
  assumes "unwrap_args s vs = Inr ms" and "sint n = int (length vs)" and "sint n \<le> INT_MAX"
  shows "\<exists>s' r. rb_ary_new_from_args s n vs = Inr (s', r) \<and>
           rb_ary_new_from_values s n vs = Inr (s', r) \<and>
           heap s' = heap s @ [MArray ms] \<and>
           refers_to_array s' r (length (heap s)) ms \<and>
           int (length ms) = sint n \<and>
           (\<forall>i. i < length vs \<longrightarrow> rb_tr_unwrap s' (vs ! i) = Inr (ms ! i))"
proof -
  define s' where "s' = s\<lparr>heap := heap s @ [MArray ms],
                           handles := handles s @ [MObj (length (heap s))],
                           dispatches := dispatches s + length vs + 1\<rparr>"
  have ext: "take (length (handles s)) (handles s') = handles s"
    by (simp add: s'_def)
  from unwrap_args_nth [OF unwrap_args_extend [OF ext assms(1)]]
  have len: "length ms = length vs"
    and nth: "\<forall>i. i < length vs \<longrightarrow> rb_tr_unwrap s' (vs ! i) = Inr (ms ! i)"
    by simp_all
  have "rb_ary_new_from_args s n vs = Inr (s', Ref (length (handles s)))"
    unfolding s'_def by (rule rb_ary_new_from_args_result [OF assms])
  moreover have "rb_ary_new_from_values s n vs = Inr (s', Ref (length (handles s)))"
    unfolding s'_def by (rule rb_ary_new_from_values_result [OF assms])
  moreover have "heap s' = heap s @ [MArray ms]"
    by (simp add: s'_def)
  moreover have "refers_to_array s' (Ref (length (handles s))) (length (heap s)) ms"
    by (simp add: refers_to_array_def s'_def)
  moreover have "int (length ms) = sint n"
    using len assms(2) by simp
  ultimately show ?thesis
    using nth by blast
qed

theorem rb_ary_new_from_contract_witness:
  "unwrap_args s0 [Fixnum 7, Ref 0, Qtrue] = Inr [MInt 7, MObj 0, MTrue] \<and>
   sint (3 :: 64 word) \<le> INT_MAX \<and>
   rb_ary_new_from_args s0 3 [Fixnum 7, Ref 0, Qtrue] =
     Inr (\<lparr>heap = [MArray [MInt 1, MInt 2, MInt 3, MInt 4], MArray [MInt 7, MObj 0, MTrue]],
            handles = [MObj 0, MObj 1], dispatches = 4\<rparr>, Ref 1) \<and>
   rb_ary_new_from_values s0 3 [Fixnum 7, Ref 0, Qtrue] =
     Inr (\<lparr>heap = [MArray [MInt 1, MInt 2, MInt 3, MInt 4], MArray [MInt 7, MObj 0, MTrue]],
            handles = [MObj 0, MObj 1], dispatches = 4\<rparr>, Ref 1)"
  using rb_ary_new_from_contract [of s0 "[Fixnum 7, Ref 0, Qtrue]" "[MInt 7, MObj 0, MTrue]" 3]
    rb_ary_new_from_args_result [of s0 "[Fixnum 7, Ref 0, Qtrue]" "[MInt 7, MObj 0, MTrue]" 3]
  by (simp add: s0_def FIXABLE_def INT_MAX_def)

section \<open>How many messages building an array sends\<close>

text \<open>
  C8, as stated, fails: \<open>rb_ary_new_from_values\<close> does not deliver the items in bulk.
  For two items it sends three messages to the managed side (the dispatch counter goes
  from 0 to 3): \<open>rb_ary_new_capa\<close> once and \<open>[]=\<close> once per item. That is not fewer than
  two.
\<close>

theorem rb_ary_new_from_values_counterexample:
  "rb_ary_new_from_values s_empty 2 [Fixnum 7, Fixnum 8] =
     Inr (\<lparr>heap = [MArray [MInt 7, MInt 8]], handles = [MObj 0], dispatches = 3\<rparr>, Ref 0)"
  using rb_ary_new_from_values_result [of s_empty "[Fixnum 7, Fixnum 8]" "[MInt 7, MInt 8]" 2]
  by (simp add: s_empty_def FIXABLE_def INT_MAX_def)

text \<open>
  C8, amended. For every \<open>n\<close> from 0 to \<open>INT_MAX\<close> and every sequence of \<open>n\<close> valid handles,
  \<open>rb_ary_new_from_values\<close> sends exactly \<open>n + 1\<close> messages to the managed side: one
  \<open>rb_ary_new_capa\<close> and one \<open>[]=\<close> for each item.
\<close>

theorem rb_ary_new_from_values_dispatches:
  assumes "unwrap_args s vs = Inr ms" and "sint n = int (length vs)" and "sint n \<le> INT_MAX"
  shows "\<exists>s' r. rb_ary_new_from_values s n vs = Inr (s', r) \<and>
           dispatches s' = dispatches s + length vs + 1"
  using rb_ary_new_from_values_result [OF assms] by simp

theorem rb_ary_new_from_values_dispatches_witness:
  "unwrap_args s0 [Qnil, Qtrue, Qfalse] = Inr [MNil, MTrue, MFalse] \<and>
   sint (3 :: 64 word) = int (length [Qnil, Qtrue, Qfalse]) \<and>
   (\<exists>s' r. rb_ary_new_from_values s0 3 [Qnil, Qtrue, Qfalse] = Inr (s', r) \<and>
      dispatches s' = 4)"
  using rb_ary_new_from_values_dispatches [of s0 "[Qnil, Qtrue, Qfalse]" "[MNil, MTrue, MFalse]" 3]
  by (simp add: s0_def INT_MAX_def eval_nat_numeral)

section \<open>Coercion to an array\<close>

lemma rb_check_array_type_array:
  assumes "refers_to_array s x k xs"
  shows "rb_check_array_type s x = Inr (new_handle s (MObj k))"
  using assms by (simp add: rb_check_array_type_def refers_to_array_def)

lemma rb_check_array_type_scalar:
  assumes "rb_tr_unwrap s x = Inr v" and "scalar s v"
  shows "rb_check_array_type s x = Inr (s, Qnil)"
  using assms by (cases v) (auto simp: rb_check_array_type_def split: mobject.splits)

text \<open>
  C6. Let \<open>x\<close> be a valid handle and \<open>v\<close> the managed value it refers to. When \<open>v\<close> is
  array-convertible (an array object \<open>k\<close>), \<open>rb_ary_to_ary\<close> returns a handle of that very
  object and the heap is unchanged: no copy is made. When \<open>v\<close> is any other value,
  \<open>rb_ary_to_ary\<close> returns a handle of a new array object whose only element is \<open>v\<close>,
  and every older object is untouched.
\<close>

theorem rb_ary_to_ary_contract:
  assumes "rb_tr_unwrap s x = Inr v"
  shows "(array_convertible s v \<longrightarrow>
            (\<exists>s' r k xs. v = MObj k \<and> refers_to_array s x k xs \<and>
               rb_ary_to_ary s x = Inr (s', r) \<and> heap s' = heap s \<and>
               refers_to_array s' r k xs)) \<and>
         (scalar s v \<longrightarrow>
            (\<exists>s' r. rb_ary_to_ary s x = Inr (s', r) \<and> heap s' = heap s @ [MArray [v]] \<and>
               refers_to_array s' r (length (heap s)) [v] \<and> length [v] = 1))"
proof (intro conjI impI)
  assume "array_convertible s v"
  then obtain k xs where v: "v = MObj k" and k: "k < length (heap s)"
    and xs: "heap s ! k = MArray xs"
    by (cases v) (auto split: mobject.splits)
  from assms v k xs have x: "refers_to_array s x k xs"
    by (simp add: refers_to_array_def)
  have res: "rb_ary_to_ary s x = Inr (new_handle s (MObj k))"
    by (simp add: rb_ary_to_ary_def rb_check_array_type_array [OF x] new_handle_def NIL_P_def)
  have r: "refers_to_array (fst (new_handle s (MObj k))) (snd (new_handle s (MObj k))) k xs"
    using k xs by (simp add: refers_to_array_def new_handle_def)
  have h: "heap (fst (new_handle s (MObj k))) = heap s"
    by (simp add: new_handle_def)
  show "\<exists>s' r k xs. v = MObj k \<and> refers_to_array s x k xs \<and>
          rb_ary_to_ary s x = Inr (s', r) \<and> heap s' = heap s \<and> refers_to_array s' r k xs"
    using v x res r h
    by (intro exI [of _ "fst (new_handle s (MObj k))"] exI [of _ "snd (new_handle s (MObj k))"]
        exI [of _ k] exI [of _ xs]) simp
next
  assume sc: "scalar s v"
  have args: "unwrap_args s [x] = Inr [v]"
    using assms by simp
  have "rb_ary_to_ary s x = rb_ary_new_from_args s 1 [x]"
    by (simp add: rb_ary_to_ary_def rb_check_array_type_scalar [OF assms sc] NIL_P_def)
  also have "\<dots> = Inr (s\<lparr>heap := heap s @ [MArray [v]],
                           handles := handles s @ [MObj (length (heap s))],
                           dispatches := dispatches s + length [x] + 1\<rparr>,
                        Ref (length (handles s)))"
    by (rule rb_ary_new_from_args_result [OF args]) (simp_all add: INT_MAX_def)
  finally show "\<exists>s' r. rb_ary_to_ary s x = Inr (s', r) \<and> heap s' = heap s @ [MArray [v]] \<and>
                  refers_to_array s' r (length (heap s)) [v] \<and> length [v] = 1"
    by (simp add: refers_to_array_def)
qed

theorem rb_ary_to_ary_contract_witness:
  "rb_tr_unwrap s2 (Ref 1) = Inr (MObj 1) \<and> array_convertible s2 (MObj 1) \<and>
   rb_ary_to_ary s2 (Ref 1) = Inr (s2\<lparr>handles := handles s2 @ [MObj 1]\<rparr>, Ref 4) \<and>
   rb_tr_unwrap s2 (Fixnum 5) = Inr (MInt 5) \<and> scalar s2 (MInt 5) \<and>
   rb_ary_to_ary s2 (Fixnum 5) =
     Inr (s2\<lparr>heap := heap s2 @ [MArray [MInt 5]], handles := handles s2 @ [MObj 4],
             dispatches := 2\<rparr>, Ref 4) \<and>
   rb_tr_unwrap s2 (Ref 3) = Inr (MObj 3) \<and> scalar s2 (MObj 3) \<and>
   rb_ary_to_ary s2 (Ref 3) =
     Inr (s2\<lparr>heap := heap s2 @ [MArray [MObj 3]], handles := handles s2 @ [MObj 4],
             dispatches := 2\<rparr>, Ref 4)"
  using rb_ary_to_ary_contract [of s2 "Ref 1" "MObj 1"]
    rb_ary_to_ary_contract [of s2 "Fixnum 5" "MInt 5"]
    rb_ary_to_ary_contract [of s2 "Ref 3" "MObj 3"]
    rb_ary_new_from_args_result [of s2 "[Fixnum 5]" "[MInt 5]" 1]
    rb_ary_new_from_args_result [of s2 "[Ref 3]" "[MObj 3]" 1]
  by (simp add: s2_def FIXABLE_def INT_MAX_def rb_ary_to_ary_def rb_check_array_type_def
      new_handle_def NIL_P_def)

section \<open>In-place operations\<close>





end
